theory Spec2Isabelle
  imports Main
begin

section \<open>ViewList (packages/base/src/viewlist.ts)\<close>

text \<open>
  A shallow embedding of the class \<open>ViewList<T>\<close> together with the small part of
  the promise machinery of the platform that the class relies on (\<open>Promise.resolve\<close>,
  \<open>then\<close>, \<open>Promise.all\<close> and the queue of promise jobs).

  Model references (\<open>'m\<close>) and views (\<open>'v\<close>) are opaque. An element of
  \<open>new_models\<close> (of type \<open>any[]\<close>) is such a reference or the number \<open>NaN\<close>, the one
  value that the strict comparison \<open>!==\<close> of the source finds different from itself.
\<close>

subsection \<open>Values, hooks and promises\<close>

text \<open>
  The hook and context parameters have the type \<open>any\<close> at run time; \<open>jsval\<close> lists
  the values that matter for \<open>||\<close>: the falsy ones, objects, and functions. \<open>This\<close>
  is the ViewList instance itself.
\<close>

datatype jsval = Undefined | Null | Bool bool | Num int | NaN | Str string
  | Obj nat | Fun nat | This

fun truthy :: "jsval \<Rightarrow> bool" where
  "truthy Undefined = False"
| "truthy Null = False"
| "truthy (Bool b) = b"
| "truthy (Num n) = (n \<noteq> 0)"
| "truthy NaN = False"
| "truthy (Str s) = (s \<noteq> [])"
| "truthy (Obj _) = True"
| "truthy (Fun _) = True"
| "truthy This = True"

datatype error = TypeError | Thrown string

text \<open>
  The elements of the model arrays, and \<open>a !== b\<close> on them: references (and primitive
  values other than \<open>NaN\<close>) are compared for identity, and \<open>NaN !== NaN\<close> holds.
\<close>

datatype 'm model = Model 'm | NaN_model

definition strict_neq :: "'m model \<Rightarrow> 'm model \<Rightarrow> bool" where
  "strict_neq a b = (a \<noteq> b \<or> a = NaN_model)"

text \<open>How a promise has settled; a pending promise has no outcome yet.\<close>

datatype 'a outcome = Fulfilled 'a | Rejected error

text \<open>
  An element of \<open>views\<close> is a promise. \<open>Promise.resolve(x)\<close> makes a new promise,
  already fulfilled, when \<open>x\<close> is a plain view (\<open>Wrapped\<close>, with the identity of the
  new promise), and returns \<open>x\<close> itself when \<open>x\<close> is a promise (\<open>Ext\<close>, a promise
  made by the creation hook and settled by the environment).
\<close>

datatype 'v handle = Wrapped nat 'v | Ext nat

text \<open>What a call of the creation hook does: it returns a view, returns a promise, or throws.\<close>

datatype 'v cresult = RetValue 'v | RetPromise nat | Throws error

text \<open>
  The stored removal hook is the one given at construction or the default
  \<open>function(view) { view.remove(); }\<close>.
\<close>

datatype rhook = DefaultRemove | Given jsval

text \<open>
  The callbacks that the class attaches to a view promise: the removal callback of
  \<open>update\<close> (with the hook and context it closes over), and the element function of a
  \<open>Promise.all\<close> (the combined promise and the index of the element).
\<close>

datatype reaction = RemoveReaction rhook jsval | AllElement nat nat

text \<open>
  The history of calls into code outside the class: the creation hook (callee, receiver,
  model, index, and what the call did), the removal hook (callee, receiver, view), and
  the \<open>remove()\<close> method of a view, which the default removal hook calls.
\<close>

datatype ('m, 'v) call =
    CreateCall jsval jsval "'m model" nat "'v cresult"
  | RemoveCall rhook jsval 'v
  | ViewRemove 'v

text \<open>
  The code outside the class. A hook is a function value \<open>Fun k\<close>; what it does may
  depend on everything that was called before.
\<close>

record ('m, 'v) env =
  create_fun :: "nat \<Rightarrow> ('m, 'v) call list \<Rightarrow> jsval \<Rightarrow> 'm model \<Rightarrow> nat \<Rightarrow> 'v cresult"
  remove_fun :: "nat \<Rightarrow> ('m, 'v) call list \<Rightarrow> jsval \<Rightarrow> 'v \<Rightarrow> error option"
  view_remove :: "('m, 'v) call list \<Rightarrow> 'v \<Rightarrow> error option"

text \<open>
  A promise made by \<open>Promise.all\<close>: its outcome once settled, the values of the
  elements that have been delivered, and the \<open>then\<close> callbacks waiting for it (each
  named by the promise that \<open>then\<close> returned). The promise is fulfilled when every
  element has delivered its value; each element delivers once, so this is when the
  counter of the platform reaches zero.
\<close>

record 'v all_promise =
  all_status :: "'v list outcome option"
  all_vals :: "'v option list"
  all_reactions :: "nat list"

datatype 'v job = HandleJob reaction "'v outcome" | AllThenJob nat "'v list outcome"

text \<open>
  The fields of the class (\<open>handler_context\<close>, \<open>models\<close>, \<open>views\<close>,
  \<open>create_view\<close>, \<open>remove_view\<close>; \<open>None\<close> is \<open>null\<close>) and the state of the
  platform: the promises made by hooks, the promises made by \<open>Promise.all\<close>, the
  promises returned by \<open>remove()\<close>, the queue of promise jobs, the next identity for
  \<open>Promise.resolve\<close>, and the history of calls.
\<close>

record ('m, 'v) state =
  handler_context :: jsval
  models :: "'m model list option"
  views :: "'v handle list option"
  create_view :: jsval
  remove_view :: rhook
  ext_status :: "nat \<Rightarrow> 'v outcome option"
  ext_reactions :: "nat \<Rightarrow> reaction list"
  alls :: "'v all_promise list"
  rets :: "unit outcome option list"
  jobs :: "'v job list"
  next_wrapped :: nat
  trace :: "('m, 'v) call list"

subsection \<open>initialize and the constructor\<close>

definition initialize :: "jsval \<Rightarrow> jsval \<Rightarrow> jsval \<Rightarrow> ('m, 'v) state \<Rightarrow> ('m, 'v) state" where
  "initialize cv rv cx s =
     s\<lparr>handler_context := (if truthy cx then cx else This),
       models := Some [],
       views := Some [],
       create_view := cv,
       remove_view := (if truthy rv then Given rv else DefaultRemove)\<rparr>"

definition blank :: "('m, 'v) state" where
  "blank = \<lparr>handler_context = Undefined, models = None, views = None,
     create_view = Undefined, remove_view = Given Undefined,
     ext_status = (\<lambda>_. None), ext_reactions = (\<lambda>_. []),
     alls = [], rets = [], jobs = [], next_wrapped = 0, trace = []\<rparr>"

definition new_ViewList :: "jsval \<Rightarrow> jsval \<Rightarrow> jsval \<Rightarrow> ('m, 'v) state" where
  "new_ViewList cv rv cx = initialize cv rv cx blank"

subsection \<open>Promise operations\<close>

text \<open>
  \<open>h.then(r)\<close>: a settled promise queues the job at once, a pending one keeps the
  callback until it settles.
\<close>

definition then_handle :: "'v handle \<Rightarrow> reaction \<Rightarrow> ('m, 'v) state \<Rightarrow> ('m, 'v) state" where
  "then_handle h r s =
     (case h of
        Wrapped _ v \<Rightarrow> s\<lparr>jobs := jobs s @ [HandleJob r (Fulfilled v)]\<rparr>
      | Ext k \<Rightarrow>
          (case ext_status s k of
             None \<Rightarrow> s\<lparr>ext_reactions := (ext_reactions s)(k := ext_reactions s k @ [r])\<rparr>
           | Some out \<Rightarrow> s\<lparr>jobs := jobs s @ [HandleJob r out]\<rparr>))"

fun register_elements :: "nat \<Rightarrow> 'v handle list \<Rightarrow> nat \<Rightarrow> ('m, 'v) state \<Rightarrow> ('m, 'v) state" where
  "register_elements a [] i s = s"
| "register_elements a (h # hs) i s = register_elements a hs (Suc i) (then_handle h (AllElement a i) s)"

text \<open>\<open>Promise.all(hs)\<close>; \<open>Promise.all(null)\<close> is a promise rejected with a TypeError.\<close>

definition promise_all :: "'v handle list option \<Rightarrow> ('m, 'v) state \<Rightarrow> ('m, 'v) state \<times> nat" where
  "promise_all hso s =
     (let a = length (alls s) in
      case hso of
        None \<Rightarrow>
          (s\<lparr>alls := alls s @ [\<lparr>all_status = Some (Rejected TypeError), all_vals = [],
                                all_reactions = []\<rparr>]\<rparr>, a)
      | Some hs \<Rightarrow>
          (register_elements a hs 0
             (s\<lparr>alls := alls s @ [\<lparr>all_status = (if hs = [] then Some (Fulfilled []) else None),
                                   all_vals = replicate (length hs) None,
                                   all_reactions = []\<rparr>]\<rparr>), a))"

text \<open>\<open>a.then(callback of remove)\<close> on a promise made by \<open>Promise.all\<close>.\<close>

definition then_all :: "nat \<Rightarrow> nat \<Rightarrow> ('m, 'v) state \<Rightarrow> ('m, 'v) state" where
  "then_all a r s =
     (case all_status (alls s ! a) of
        None \<Rightarrow> s\<lparr>alls := (alls s)[a := (alls s ! a)\<lparr>all_reactions := all_reactions (alls s ! a) @ [r]\<rparr>]\<rparr>
      | Some out \<Rightarrow> s\<lparr>jobs := jobs s @ [AllThenJob r out]\<rparr>)"

text \<open>The environment settles a promise that a creation hook returned.\<close>

definition settle :: "nat \<Rightarrow> 'v outcome \<Rightarrow> ('m, 'v) state \<Rightarrow> ('m, 'v) state" where
  "settle k out s =
     (case ext_status s k of
        Some _ \<Rightarrow> s
      | None \<Rightarrow>
          s\<lparr>ext_status := (ext_status s)(k := Some out),
            ext_reactions := (ext_reactions s)(k := []),
            jobs := jobs s @ map (\<lambda>r. HandleJob r out) (ext_reactions s k)\<rparr>)"

definition settle_all_promise :: "nat \<Rightarrow> 'v list outcome \<Rightarrow> ('m, 'v) state \<Rightarrow> ('m, 'v) state" where
  "settle_all_promise a out s =
     (if a < length (alls s) then
        (case all_status (alls s ! a) of
           Some _ \<Rightarrow> s
         | None \<Rightarrow>
             s\<lparr>alls := (alls s)[a := (alls s ! a)\<lparr>all_status := Some out, all_reactions := []\<rparr>],
               jobs := jobs s @ map (\<lambda>r. AllThenJob r out) (all_reactions (alls s ! a))\<rparr>)
      else s)"

subsection \<open>update\<close>

text \<open>
  The first loop of \<open>update\<close>:
  \<open>for (; i < new_models.length; i++) { if (i >= this._models.length || new_models[i] !== this._models[i]) break; }\<close>
\<close>

function scan :: "'m model list \<Rightarrow> 'm model list \<Rightarrow> nat \<Rightarrow> nat" where
  "scan nm ms i =
     (if i < length nm then
        (if i \<ge> length ms \<or> strict_neq (nm ! i) (ms ! i) then i else scan nm ms (Suc i))
      else i)"
  by pat_completeness auto
termination
  by (relation "measure (\<lambda>(nm, ms, i). length nm - i)") auto

declare scan.simps [simp del]

text \<open>Reading \<open>this._models.length\<close> throws when \<open>_models\<close> is \<open>null\<close>.\<close>

definition first_removed :: "'m model list \<Rightarrow> 'm model list option \<Rightarrow> error + nat" where
  "first_removed nm mso =
     (case mso of
        None \<Rightarrow> (if nm = [] then Inr 0 else Inl TypeError)
      | Some ms \<Rightarrow> Inr (scan nm ms 0))"

text \<open>
  \<open>xs.splice(start, deleteCount)\<close> for a start that is not negative: the removed
  elements and what is left of the array.
\<close>

definition array_splice :: "'a list \<Rightarrow> nat \<Rightarrow> int \<Rightarrow> 'a list \<times> 'a list" where
  "array_splice xs start delete_count =
     (let len = length xs;
          actual_start = min start len;
          actual_delete = nat (min (max delete_count 0) (int len - int actual_start))
      in (take actual_delete (drop actual_start xs),
          take actual_start xs @ drop (actual_start + actual_delete) xs))"

text \<open>The second loop: \<open>removed[j].then(function(view) { remove.call(context, view); })\<close>.\<close>

fun remove_loop :: "'v handle list \<Rightarrow> rhook \<Rightarrow> jsval \<Rightarrow> ('m, 'v) state \<Rightarrow> ('m, 'v) state" where
  "remove_loop [] rm cx s = s"
| "remove_loop (h # hs) rm cx s = remove_loop hs rm cx (then_handle h (RemoveReaction rm cx) s)"

text \<open>\<open>create.call(context, model, i)\<close>; calling what is not a function throws a TypeError.\<close>

definition call_create ::
  "('m, 'v) env \<Rightarrow> jsval \<Rightarrow> jsval \<Rightarrow> 'm model \<Rightarrow> nat \<Rightarrow> ('m, 'v) state \<Rightarrow> 'v cresult \<times> ('m, 'v) state" where
  "call_create e f cx m i s =
     (case f of
        Fun k \<Rightarrow>
          (let r = create_fun e k (trace s) cx m i
           in (r, s\<lparr>trace := trace s @ [CreateCall f cx m i r]\<rparr>))
      | _ \<Rightarrow> (Throws TypeError, s))"

text \<open>
  The third loop:
  \<open>for (; i < new_models.length; i++) { this.views.push(Promise.resolve(create.call(context, new_models[i], i))); }\<close>
  An exception of the hook ends the loop and \<open>update\<close>.
\<close>

function create_loop ::
  "('m, 'v) env \<Rightarrow> jsval \<Rightarrow> jsval \<Rightarrow> 'm model list \<Rightarrow> nat \<Rightarrow> ('m, 'v) state \<Rightarrow> ('m, 'v) state \<times> (error + unit)" where
  "create_loop e create cx nm i s =
     (if i < length nm then
        (case views s of
           None \<Rightarrow> (s, Inl TypeError)
         | Some vs \<Rightarrow>
             (case call_create e create cx (nm ! i) i s of
                (Throws x, s1) \<Rightarrow> (s1, Inl x)
              | (RetValue v, s1) \<Rightarrow>
                  create_loop e create cx nm (Suc i)
                    (s1\<lparr>views := Some (vs @ [Wrapped (next_wrapped s1) v]),
                        next_wrapped := Suc (next_wrapped s1)\<rparr>)
              | (RetPromise k, s1) \<Rightarrow>
                  create_loop e create cx nm (Suc i) (s1\<lparr>views := Some (vs @ [Ext k])\<rparr>)))
      else (s, Inr ()))"
  by pat_completeness auto
termination
  by (relation "measure (\<lambda>(e, create, cx, nm, i, s). length nm - i)") auto

declare create_loop.simps [simp del]

text \<open>\<open>is_resolve r h\<close>: the promise \<open>h\<close> is \<open>Promise.resolve\<close> of what the hook returned.\<close>

fun is_resolve :: "'v cresult \<Rightarrow> 'v handle \<Rightarrow> bool" where
  "is_resolve (RetValue v) (Wrapped n w) = (v = w)"
| "is_resolve (RetPromise k) (Ext j) = (k = j)"
| "is_resolve _ _ = False"

text \<open>
  Lines 41 to 55 of \<open>update\<close>, with the removal hook and the context already chosen:
  the scan, the splice of \<open>views\<close> and the removal callbacks. The result is
  \<open>first_removed\<close>, the array \<open>removed\<close> and the state.
\<close>

definition update_splice ::
  "'m model list \<Rightarrow> rhook \<Rightarrow> jsval \<Rightarrow> ('m, 'v) state \<Rightarrow> error + (nat \<times> 'v handle list \<times> ('m, 'v) state)" where
  "update_splice new_models remove context s =
     (case first_removed new_models (models s) of
        Inl x \<Rightarrow> Inl x
      | Inr i \<Rightarrow>
          (case views s of
             None \<Rightarrow> Inl TypeError
           | Some vs \<Rightarrow>
               (let (removed, rest) = array_splice vs i (int (length vs) - int i)
                in Inr (i, removed, remove_loop removed remove context (s\<lparr>views := Some rest\<rparr>)))))"

text \<open>The body of \<open>update\<close> after its first three lines.\<close>

definition update_with ::
  "('m, 'v) env \<Rightarrow> 'm model list \<Rightarrow> jsval \<Rightarrow> rhook \<Rightarrow> jsval \<Rightarrow> ('m, 'v) state \<Rightarrow> ('m, 'v) state \<times> (error + nat)" where
  "update_with e new_models create remove context s =
     (case update_splice new_models remove context s of
        Inl x \<Rightarrow> (s, Inl x)
      | Inr (i, removed, s1) \<Rightarrow>
          (case create_loop e create context new_models i s1 of
             (s2, Inl x) \<Rightarrow> (s2, Inl x)
           | (s2, Inr _) \<Rightarrow>
               (let s3 = s2\<lparr>models := Some new_models\<rparr>;
                    (s4, a) = promise_all (views s3) s3
                in (s4, Inr a))))"

text \<open>
  \<open>update(new_models, create_view, remove_view, context)\<close>: the state after the call,
  and the exception thrown or the promise returned.
\<close>

definition update ::
  "('m, 'v) env \<Rightarrow> 'm model list \<Rightarrow> jsval \<Rightarrow> jsval \<Rightarrow> jsval \<Rightarrow> ('m, 'v) state \<Rightarrow> ('m, 'v) state \<times> (error + nat)" where
  "update e new_models cv rv cx s =
     update_with e new_models
       (if truthy cv then cv else create_view s)
       (if truthy rv then Given rv else remove_view s)
       (if truthy cx then cx else handler_context s) s"

subsection \<open>remove and dispose\<close>

definition remove :: "('m, 'v) state \<Rightarrow> ('m, 'v) state \<times> nat" where
  "remove s =
     (let (s1, a) = promise_all (views s) s;
          r = length (rets s1)
      in (then_all a r (s1\<lparr>rets := rets s1 @ [None]\<rparr>), r))"

definition dispose :: "('m, 'v) state \<Rightarrow> ('m, 'v) state" where
  "dispose s = s\<lparr>views := None, models := None\<rparr>"

subsection \<open>Promise jobs\<close>

text \<open>\<open>remove.call(context, view)\<close>: the state after the call and the exception, if any.\<close>

definition call_remove ::
  "('m, 'v) env \<Rightarrow> rhook \<Rightarrow> jsval \<Rightarrow> 'v \<Rightarrow> ('m, 'v) state \<Rightarrow> ('m, 'v) state \<times> error option" where
  "call_remove e rm cx v s =
     (case rm of
        DefaultRemove \<Rightarrow>
          (let t = trace s @ [RemoveCall DefaultRemove cx v, ViewRemove v]
           in (s\<lparr>trace := t\<rparr>, view_remove e (trace s @ [RemoveCall DefaultRemove cx v]) v))
      | Given (Fun k) \<Rightarrow>
          (s\<lparr>trace := trace s @ [RemoveCall rm cx v]\<rparr>, remove_fun e k (trace s) cx v)
      | Given _ \<Rightarrow> (s, Some TypeError))"

text \<open>
  The callback of \<open>remove\<close>:
  \<open>views.forEach((value) => this._remove_view.call(this._handler_context, value))\<close>;
  an exception of the hook ends the loop.
\<close>

fun remove_each :: "('m, 'v) env \<Rightarrow> 'v list \<Rightarrow> ('m, 'v) state \<Rightarrow> ('m, 'v) state \<times> error option" where
  "remove_each e [] s = (s, None)"
| "remove_each e (v # vs) s =
     (case call_remove e (remove_view s) (handler_context s) v s of
        (s1, Some x) \<Rightarrow> (s1, Some x)
      | (s1, None) \<Rightarrow> remove_each e vs s1)"

definition run_job :: "('m, 'v) env \<Rightarrow> 'v job \<Rightarrow> ('m, 'v) state \<Rightarrow> ('m, 'v) state" where
  "run_job e j s =
     (case j of
        HandleJob (RemoveReaction rm cx) (Fulfilled v) \<Rightarrow> fst (call_remove e rm cx v s)
      | HandleJob (RemoveReaction rm cx) (Rejected x) \<Rightarrow> s
      | HandleJob (AllElement a i) (Fulfilled v) \<Rightarrow>
          (if a < length (alls s) then
             (let vals = (all_vals (alls s ! a))[i := Some v];
                  s1 = s\<lparr>alls := (alls s)[a := (alls s ! a)\<lparr>all_vals := vals\<rparr>]\<rparr>
              in if list_all (\<lambda>x. x \<noteq> None) vals
                 then settle_all_promise a (Fulfilled (map the vals)) s1
                 else s1)
           else s)
      | HandleJob (AllElement a i) (Rejected x) \<Rightarrow> settle_all_promise a (Rejected x) s
      | AllThenJob r (Fulfilled vs) \<Rightarrow>
          (case remove_each e vs s of
             (s1, Some x) \<Rightarrow> s1\<lparr>rets := (rets s1)[r := Some (Rejected x)]\<rparr>
           | (s1, None) \<Rightarrow>
               s1\<lparr>views := Some [], models := Some [],
                  rets := (rets s1)[r := Some (Fulfilled ())]\<rparr>)
      | AllThenJob r (Rejected x) \<Rightarrow> s\<lparr>rets := (rets s)[r := Some (Rejected x)]\<rparr>)"

text \<open>
  The queue of promise jobs is run until it is empty. It does become empty: a job is
  taken off the queue, and a job is added only when a pending \<open>Promise.all\<close> settles,
  one for each callback waiting for it.
\<close>

definition pending_weight :: "'v all_promise \<Rightarrow> nat" where
  "pending_weight p = (case all_status p of None \<Rightarrow> length (all_reactions p) | Some _ \<Rightarrow> 0)"

definition weight :: "('m, 'v) state \<Rightarrow> nat" where
  "weight s = length (jobs s) + sum_list (map pending_weight (alls s))"

lemma sum_list_map_update:
  fixes f :: "'a \<Rightarrow> nat"
  assumes "a < length xs"
  shows "sum_list (map f (xs[a := y])) + f (xs ! a) = sum_list (map f xs) + f y"
  using assms
proof (induction xs arbitrary: a)
  case Nil
  then show ?case by simp
next
  case (Cons x xs)
  then show ?case by (cases a) auto
qed

lemma weight_settle_all_promise: "weight (settle_all_promise a out s) = weight s"
proof (cases "a < length (alls s) \<and> all_status (alls s ! a) = None")
  case True
  then have "sum_list (map pending_weight ((alls s)[a := (alls s ! a)\<lparr>all_status := Some out, all_reactions := []\<rparr>]))
      + pending_weight (alls s ! a) = sum_list (map pending_weight (alls s)) + 0"
    using sum_list_map_update [where a = a and xs = "alls s" and f = pending_weight
        and y = "(alls s ! a)\<lparr>all_status := Some out, all_reactions := []\<rparr>"]
    by (simp add: pending_weight_def)
  with True show ?thesis
    by (simp add: weight_def settle_all_promise_def pending_weight_def)
next
  case False
  then show ?thesis
    by (auto simp: settle_all_promise_def split: option.splits)
qed

lemma weight_call_remove: "weight (fst (call_remove e rm cx v s)) = weight s"
  by (auto simp: call_remove_def weight_def Let_def split: rhook.splits jsval.splits)

lemma weight_remove_each: "weight (fst (remove_each e vs s)) = weight s"
proof (induction vs arbitrary: s)
  case Nil
  then show ?case by simp
next
  case (Cons v vs)
  show ?case
  proof (cases "call_remove e (remove_view s) (handler_context s) v s")
    case (Pair s1 r)
    then have w: "weight s1 = weight s"
      using weight_call_remove [of e "remove_view s" "handler_context s" v s] by simp
    show ?thesis
      using Pair w Cons.IH [of s1] by (cases r) auto
  qed
qed

lemma weight_vals_update:
  "a < length (alls s) \<Longrightarrow>
   weight (s\<lparr>alls := (alls s)[a := (alls s ! a)\<lparr>all_vals := vals\<rparr>]\<rparr>) = weight s"
  using sum_list_map_update [where a = a and xs = "alls s" and f = pending_weight
      and y = "(alls s ! a)\<lparr>all_vals := vals\<rparr>"]
  by (cases "all_status (alls s ! a)") (simp_all add: weight_def pending_weight_def)

lemma weight_run_job: "weight (run_job e j s) = weight s"
proof (cases j)
  case (HandleJob r out)
  show ?thesis
  proof (cases r)
    case (RemoveReaction rm cx)
    then show ?thesis using HandleJob
      by (cases out) (simp_all add: run_job_def weight_call_remove)
  next
    case (AllElement a i)
    then show ?thesis using HandleJob
      by (cases out) (simp_all add: run_job_def Let_def weight_settle_all_promise weight_vals_update)
  qed
next
  case (AllThenJob r out)
  show ?thesis
  proof (cases out)
    case (Fulfilled vs)
    obtain s1 x where p: "remove_each e vs s = (s1, x)" by (cases "remove_each e vs s")
    then have "weight s1 = weight s" using weight_remove_each [of e vs s] by simp
    then show ?thesis using AllThenJob Fulfilled p
      by (cases x) (simp_all add: run_job_def weight_def)
  next
    case (Rejected x)
    then show ?thesis using AllThenJob by (simp add: run_job_def weight_def)
  qed
qed

function run_jobs :: "('m, 'v) env \<Rightarrow> ('m, 'v) state \<Rightarrow> ('m, 'v) state" where
  "run_jobs e s =
     (case jobs s of
        [] \<Rightarrow> s
      | j # js \<Rightarrow> run_jobs e (run_job e j (s\<lparr>jobs := js\<rparr>)))"
  by pat_completeness auto
termination
proof (relation "measure (\<lambda>(e, s). weight s)")
  show "wf (measure (\<lambda>(e, s). weight s))" by simp
next
  fix e :: "('m, 'v) env" and s :: "('m, 'v) state" and j js
  assume "jobs s = j # js"
  then have "weight (s\<lparr>jobs := js\<rparr>) < weight s" by (simp add: weight_def)
  then show "((e, run_job e j (s\<lparr>jobs := js\<rparr>)), (e, s)) \<in> measure (\<lambda>(e, s). weight s)"
    by (simp add: weight_run_job)
qed

declare run_jobs.simps [simp del]

subsection \<open>Removal callbacks that have not run yet\<close>

text \<open>
  The removal callbacks of \<open>update\<close> that wait in the queue of jobs, and those that
  wait for the promise \<open>k\<close> to settle.
\<close>

fun is_remove_reaction :: "reaction \<Rightarrow> bool" where
  "is_remove_reaction (RemoveReaction rm cx) = True"
| "is_remove_reaction (AllElement a i) = False"




text \<open>The outcome of a view promise, if it has settled.\<close>

definition handle_outcome :: "('m, 'v) state \<Rightarrow> 'v handle \<Rightarrow> 'v outcome option" where
  "handle_outcome s h = (case h of Wrapped _ v \<Rightarrow> Some (Fulfilled v) | Ext k \<Rightarrow> ext_status s k)"

text \<open>
  Attaching callbacks to promises, in order: the jobs this queues (for the promises
  that have settled) and the callbacks it leaves waiting on the pending promise \<open>k\<close>.
\<close>

definition register :: "('v handle \<times> reaction) list \<Rightarrow> ('m, 'v) state \<Rightarrow> ('m, 'v) state" where
  "register prs s = fold (\<lambda>(h, r). then_handle h r) prs s"

definition queued_for :: "('m, 'v) state \<Rightarrow> ('v handle \<times> reaction) list \<Rightarrow> 'v job list" where
  "queued_for s prs =
     concat (map (\<lambda>(h, r). case handle_outcome s h of Some out \<Rightarrow> [HandleJob r out] | None \<Rightarrow> []) prs)"

definition waiting_for :: "('m, 'v) state \<Rightarrow> nat \<Rightarrow> ('v handle \<times> reaction) list \<Rightarrow> reaction list" where
  "waiting_for s k prs =
     (if ext_status s k = None then map snd (filter (\<lambda>(h, r). h = Ext k) prs) else [])"


definition elements :: "nat \<Rightarrow> 'v handle list \<Rightarrow> ('v handle \<times> reaction) list" where
  "elements a hs = zip hs (map (AllElement a) [0..<length hs])"

definition new_all :: "'v handle list \<Rightarrow> 'v all_promise" where
  "new_all hs = \<lparr>all_status = (if hs = [] then Some (Fulfilled []) else None),
     all_vals = replicate (length hs) None, all_reactions = []\<rparr>"

text \<open>
  The calls that \<open>remove.call(context, view)\<close> makes (none when \<open>remove\<close> is not a
  function), and the calls that a callback makes when its promise is fulfilled with
  \<open>v\<close>.
\<close>

fun removal_calls :: "rhook \<Rightarrow> jsval \<Rightarrow> 'v \<Rightarrow> ('m, 'v) call list" where
  "removal_calls DefaultRemove cx v = [RemoveCall DefaultRemove cx v, ViewRemove v]"
| "removal_calls (Given (Fun k)) cx v = [RemoveCall (Given (Fun k)) cx v]"
| "removal_calls (Given _) cx v = []"

fun reaction_calls :: "'v outcome \<Rightarrow> reaction \<Rightarrow> ('m, 'v) call list" where
  "reaction_calls (Fulfilled v) (RemoveReaction rm cx) = removal_calls rm cx v"
| "reaction_calls _ _ = []"

fun job_calls :: "'v job \<Rightarrow> ('m, 'v) call list" where
  "job_calls (HandleJob r out) = reaction_calls out r"
| "job_calls (AllThenJob r out) = []"
















subsection \<open>An example environment\<close>

text \<open>
  Three hooks: \<open>Fun 0\<close> returns a view at once, \<open>Fun 1\<close> returns a new pending
  promise at each call (numbered from 5), and \<open>Fun 2\<close> (like every other function) throws. No removal
  hook throws. \<open>s_abc\<close> is a list after \<open>update([Model 10, Model 20, Model 30])\<close> with \<open>Fun 0\<close>.
\<close>

definition example_env :: "(nat, nat) env" where
  "example_env =
     \<lparr>create_fun = (\<lambda>k h cx m i.
        if k = 0 then RetValue (case m of Model n \<Rightarrow> n + 100 | NaN_model \<Rightarrow> 0)
        else if k = 1 then RetPromise (length h + 5)
        else Throws (Thrown ''boom'')),
      remove_fun = (\<lambda>k h cx v. None),
      view_remove = (\<lambda>h v. None)\<rparr>"

definition s_abc :: "(nat, nat) state" where
  "s_abc = fst (update example_env [Model 10, Model 20, Model 30] Undefined Undefined Undefined (new_ViewList (Fun 0) Null Null))"

text \<open>\<open>s_abd\<close> is \<open>s_abc\<close> after \<open>update([Model 10, Model 20, Model 40])\<close>.\<close>

definition s_abd :: "(nat, nat) state" where
  "s_abd = fst (update example_env [Model 10, Model 20, Model 40] Undefined Undefined Undefined s_abc)"






subsection \<open>Sequences of calls\<close>

text \<open>
  What happens to a list: a call of \<open>update\<close>, a call of \<open>remove\<close>, the settling of a promise
  that a creation hook returned, and a run of the promise jobs (between two calls made in
  the same turn no job runs).
\<close>

datatype ('m, 'v) event =
    Update "'m model list" jsval jsval jsval
  | Remove
  | Settle nat "'v outcome"
  | RunJobs

text \<open>The state after an event, and the exception thrown by the call, if any.\<close>

fun step :: "('m, 'v) env \<Rightarrow> ('m, 'v) event \<Rightarrow> ('m, 'v) state \<Rightarrow> ('m, 'v) state \<times> error option" where
  "step e (Update nm cv rv cx) s =
     (case update e nm cv rv cx s of
        (s1, Inl x) \<Rightarrow> (s1, Some x)
      | (s1, Inr a) \<Rightarrow> (s1, None))"
| "step e Remove s = (fst (remove s), None)"
| "step e (Settle k out) s = (settle k out s, None)"
| "step e RunJobs s = (run_jobs e s, None)"

text \<open>
  A sequence of events; a caller may catch the exception of a call and go on, so the run
  goes on after an exception, and records for each event whether it threw.
\<close>

fun run :: "('m, 'v) env \<Rightarrow> ('m, 'v) event list \<Rightarrow> ('m, 'v) state \<Rightarrow> ('m, 'v) state \<times> error option list" where
  "run e [] s = (s, [])"
| "run e (ev # evs) s =
     (case step e ev s of
        (s1, x) \<Rightarrow> (case run e evs s1 of (s2, xs) \<Rightarrow> (s2, x # xs)))"

text \<open>
  \<open>created_as m i h c\<close>: \<open>c\<close> is a call of a creation hook with \<open>(m, i)\<close> and \<open>h\<close> is
  \<open>Promise.resolve\<close> of its result. \<open>aligned s\<close>: \<open>_models\<close> and \<open>views\<close> have the same
  length and \<open>views[i]\<close> is the handle created for \<open>_models[i]\<close> at index \<open>i\<close>.
\<close>

fun created_as :: "'m model \<Rightarrow> nat \<Rightarrow> 'v handle \<Rightarrow> ('m, 'v) call \<Rightarrow> bool" where
  "created_as m i h (CreateCall c cx m' j r) = (m' = m \<and> j = i \<and> is_resolve r h)"
| "created_as m i h _ = False"

definition aligned :: "('m, 'v) state \<Rightarrow> bool" where
  "aligned s =
     (case models s of
        None \<Rightarrow> False
      | Some ms \<Rightarrow>
          (case views s of
             None \<Rightarrow> False
           | Some vs \<Rightarrow>
               length ms = length vs
               \<and> list_all (\<lambda>i. list_ex (created_as (ms ! i) i (vs ! i)) (trace s)) [0..<length ms]))"

section \<open>Properties\<close>

subsection \<open>The scan and the splice\<close>

lemma scan_bounds: "i \<le> scan nm ms i \<and> (i \<le> length nm \<longrightarrow> scan nm ms i \<le> length nm)
   \<and> (i \<le> length ms \<longrightarrow> scan nm ms i \<le> length ms)"
proof (induction nm ms i rule: scan.induct)
  case (1 nm ms i)
  show ?case
  proof (cases "i < length nm \<and> \<not> (i \<ge> length ms \<or> strict_neq (nm ! i) (ms ! i))")
    case True
    then have "scan nm ms i = scan nm ms (Suc i)" by (simp add: scan.simps [of nm ms i])
    moreover have "Suc i \<le> scan nm ms (Suc i) \<and> (Suc i \<le> length nm \<longrightarrow> scan nm ms (Suc i) \<le> length nm)
       \<and> (Suc i \<le> length ms \<longrightarrow> scan nm ms (Suc i) \<le> length ms)"
      using True "1.IH" by simp
    ultimately show ?thesis using True by auto
  next
    case False
    then have "scan nm ms i = i" by (auto simp: scan.simps [of nm ms i])
    then show ?thesis by simp
  qed
qed

lemma scan_agree: "i \<le> j \<Longrightarrow> j < scan nm ms i \<Longrightarrow>
   j < length nm \<and> j < length ms \<and> nm ! j = ms ! j \<and> \<not> strict_neq (nm ! j) (ms ! j)"
proof (induction nm ms i rule: scan.induct)
  case (1 nm ms i)
  show ?case
  proof (cases "i < length nm \<and> \<not> (i \<ge> length ms \<or> strict_neq (nm ! i) (ms ! i))")
    case True
    then have eq: "scan nm ms i = scan nm ms (Suc i)" by (simp add: scan.simps [of nm ms i])
    show ?thesis
    proof (cases "j = i")
      case True
      then show ?thesis using \<open>i < length nm \<and> \<not> (i \<ge> length ms \<or> strict_neq (nm ! i) (ms ! i))\<close>
        by (auto simp: strict_neq_def)
    next
      case False
      then have "Suc i \<le> j" using "1.prems" by simp
      moreover have "j < scan nm ms (Suc i)" using "1.prems" eq by simp
      ultimately show ?thesis using "1.IH" True by blast
    qed
  next
    case False
    then have "scan nm ms i = i" by (auto simp: scan.simps [of nm ms i])
    then show ?thesis using "1.prems" by simp
  qed
qed




lemma array_splice_tail:
  "array_splice xs p (int (length xs) - int p) = (drop p xs, take p xs)"
  by (auto simp: array_splice_def Let_def min_def)

lemma then_handle_frame:
  "\<exists>J R. then_handle h r s = s\<lparr>ext_reactions := R, jobs := J\<rparr>"
proof (cases h)
  case (Wrapped n v)
  have "then_handle h r s = s\<lparr>ext_reactions := ext_reactions s, jobs := jobs s @ [HandleJob r (Fulfilled v)]\<rparr>"
    using Wrapped by (simp add: then_handle_def)
  then show ?thesis by blast
next
  case (Ext k)
  show ?thesis
  proof (cases "ext_status s k")
    case None
    have "then_handle h r s = s\<lparr>ext_reactions := (ext_reactions s)(k := ext_reactions s k @ [r]), jobs := jobs s\<rparr>"
      using Ext None by (simp add: then_handle_def)
    then show ?thesis by blast
  next
    case (Some out)
    have "then_handle h r s = s\<lparr>ext_reactions := ext_reactions s, jobs := jobs s @ [HandleJob r out]\<rparr>"
      using Ext Some by (simp add: then_handle_def)
    then show ?thesis by blast
  qed
qed

lemma remove_loop_frame:
  "\<exists>J R. remove_loop hs rm cx s = s\<lparr>ext_reactions := R, jobs := J\<rparr>"
proof (induction hs arbitrary: s)
  case Nil
  have "remove_loop [] rm cx s = s\<lparr>ext_reactions := ext_reactions s, jobs := jobs s\<rparr>" by simp
  then show ?case by blast
next
  case (Cons h hs)
  obtain J R where a: "then_handle h (RemoveReaction rm cx) s = s\<lparr>ext_reactions := R, jobs := J\<rparr>"
    using then_handle_frame by blast
  obtain J' R' where "remove_loop hs rm cx (s\<lparr>ext_reactions := R, jobs := J\<rparr>) = s\<lparr>ext_reactions := R, jobs := J\<rparr>\<lparr>ext_reactions := R', jobs := J'\<rparr>"
    using Cons.IH by blast
  then have "remove_loop (h # hs) rm cx s = s\<lparr>ext_reactions := R', jobs := J'\<rparr>"
    using a by simp
  then show ?case by blast
qed

lemma register_elements_frame:
  "\<exists>J R. register_elements a hs i s = s\<lparr>ext_reactions := R, jobs := J\<rparr>"
proof (induction hs arbitrary: s i)
  case Nil
  have "register_elements a [] i s = s\<lparr>ext_reactions := ext_reactions s, jobs := jobs s\<rparr>" by simp
  then show ?case by blast
next
  case (Cons h hs)
  obtain J R where a: "then_handle h (AllElement a i) s = s\<lparr>ext_reactions := R, jobs := J\<rparr>"
    using then_handle_frame by blast
  obtain J' R' where "register_elements a hs (Suc i) (s\<lparr>ext_reactions := R, jobs := J\<rparr>) = s\<lparr>ext_reactions := R, jobs := J\<rparr>\<lparr>ext_reactions := R', jobs := J'\<rparr>"
    using Cons.IH by blast
  then have "register_elements a (h # hs) i s = s\<lparr>ext_reactions := R', jobs := J'\<rparr>"
    using a by simp
  then show ?case by blast
qed

lemma promise_all_frame:
  "\<exists>A J R. promise_all hso s = (s\<lparr>ext_reactions := R, alls := A, jobs := J\<rparr>, length (alls s))"
proof (cases hso)
  case None
  have "promise_all hso s = (s\<lparr>ext_reactions := ext_reactions s, alls := alls s @ [\<lparr>all_status = Some (Rejected TypeError), all_vals = [],
                                all_reactions = []\<rparr>], jobs := jobs s\<rparr>, length (alls s))"
    using None by (simp add: promise_all_def)
  then show ?thesis by blast
next
  case (Some hs)
  define s1 where "s1 = s\<lparr>alls := alls s @ [\<lparr>all_status = (if hs = [] then Some (Fulfilled []) else None),
                                   all_vals = replicate (length hs) None,
                                   all_reactions = []\<rparr>]\<rparr>"
  obtain J R where "register_elements (length (alls s)) hs 0 s1 = s1\<lparr>ext_reactions := R, jobs := J\<rparr>"
    using register_elements_frame by blast
  then have "promise_all hso s = (s\<lparr>ext_reactions := R, alls := alls s1, jobs := J\<rparr>, length (alls s))"
    using Some by (simp add: promise_all_def s1_def)
  then show ?thesis by blast
qed

subsection \<open>The creation loop\<close>

lemma call_create_frame:
  "snd (call_create e f cx m i s) = s\<lparr>trace := trace (snd (call_create e f cx m i s))\<rparr>"
  by (cases f) (simp_all add: call_create_def Let_def)

lemma create_loop_frame:
  "\<exists>V N T. fst (create_loop e c cx nm i s) = s\<lparr>views := V, next_wrapped := N, trace := T\<rparr>"
proof (induction e c cx nm i s rule: create_loop.induct)
  case (1 e c cx nm i s)
  have triv: "s = s\<lparr>views := views s, next_wrapped := next_wrapped s, trace := trace s\<rparr>" by simp
  show ?case
  proof (cases "i < length nm")
    case False
    then have "fst (create_loop e c cx nm i s) = s" by (simp add: create_loop.simps [of e c cx nm i s])
    then show ?thesis using triv by metis
  next
    case True
    show ?thesis
    proof (cases "views s")
      case None
      then have "fst (create_loop e c cx nm i s) = s" using True by (simp add: create_loop.simps [of e c cx nm i s])
      then show ?thesis using triv by metis
    next
      case (Some vs)
      obtain r s1 where cc: "call_create e c cx (nm ! i) i s = (r, s1)" by (cases "call_create e c cx (nm ! i) i s")
      then have "s1 = s\<lparr>trace := trace s1\<rparr>" using call_create_frame [of e c cx "nm ! i" i s] by simp
      then obtain t1 where s1: "s1 = s\<lparr>trace := t1\<rparr>" by blast
      show ?thesis
      proof (cases r)
        case (Throws x)
        then have "fst (create_loop e c cx nm i s) = s1" using True Some cc by (simp add: create_loop.simps [of e c cx nm i s])
        then have "fst (create_loop e c cx nm i s) = s\<lparr>views := views s, next_wrapped := next_wrapped s, trace := t1\<rparr>"
          using s1 by simp
        then show ?thesis by blast
      next
        case (RetValue v)
        define s2 where "s2 = s1\<lparr>views := Some (vs @ [Wrapped (next_wrapped s1) v]), next_wrapped := Suc (next_wrapped s1)\<rparr>"
        have eq: "create_loop e c cx nm i s = create_loop e c cx nm (Suc i) s2"
          using True Some cc RetValue by (simp add: create_loop.simps [of e c cx nm i s] s2_def)
        obtain V N T where "fst (create_loop e c cx nm (Suc i) s2) = s2\<lparr>views := V, next_wrapped := N, trace := T\<rparr>"
          using "1.IH"(1) [OF True Some cc [symmetric] RetValue] unfolding s2_def by blast
        then have "fst (create_loop e c cx nm i s) = s\<lparr>views := V, next_wrapped := N, trace := T\<rparr>"
          using eq unfolding s2_def s1 by simp
        then show ?thesis by blast
      next
        case (RetPromise k)
        define s2 where "s2 = s1\<lparr>views := Some (vs @ [Ext k])\<rparr>"
        have eq: "create_loop e c cx nm i s = create_loop e c cx nm (Suc i) s2"
          using True Some cc RetPromise by (simp add: create_loop.simps [of e c cx nm i s] s2_def)
        obtain V N T where "fst (create_loop e c cx nm (Suc i) s2) = s2\<lparr>views := V, next_wrapped := N, trace := T\<rparr>"
          using "1.IH"(2) [OF True Some cc [symmetric] RetPromise] unfolding s2_def by blast
        then have "fst (create_loop e c cx nm i s) = s\<lparr>views := V, next_wrapped := N, trace := T\<rparr>"
          using eq unfolding s2_def s1 by simp
        then show ?thesis by blast
      qed
    qed
  qed
qed

lemma call_create_returns:
  assumes "call_create e c cx m i s = (r, s1)" and "\<forall>x. r \<noteq> Throws x"
  shows "s1 = s\<lparr>trace := trace s @ [CreateCall c cx m i r]\<rparr>"
  using assms by (cases c) (auto simp: call_create_def Let_def)

lemma create_loop_ok:
  "create_loop e c cx nm i s = (s', Inr u) \<Longrightarrow> views s = Some vs \<Longrightarrow>
   \<exists>rs hs. length rs = length nm - i
     \<and> trace s' = trace s @ map (\<lambda>(j, r). CreateCall c cx (nm ! j) j r) (zip [i..<length nm] rs)
     \<and> views s' = Some (vs @ hs) \<and> list_all2 is_resolve rs hs"
proof (induction e c cx nm i s arbitrary: vs rule: create_loop.induct)
  case (1 e c cx nm i s)
  show ?case
  proof (cases "i < length nm")
    case False
    then have "s' = s" using "1.prems"(1) by (simp add: create_loop.simps [of e c cx nm i s])
    then show ?thesis using False "1.prems"(2) by simp
  next
    case True
    obtain r s1 where cc: "call_create e c cx (nm ! i) i s = (r, s1)" by (cases "call_create e c cx (nm ! i) i s")
    have upt: "[i..<length nm] = i # [Suc i..<length nm]" using True by (simp add: upt_conv_Cons)
    show ?thesis
    proof (cases r)
      case (Throws x)
      then show ?thesis using True "1.prems" cc by (simp add: create_loop.simps [of e c cx nm i s])
    next
      case (RetValue v)
      then have s1: "s1 = s\<lparr>trace := trace s @ [CreateCall c cx (nm ! i) i r]\<rparr>"
        using call_create_returns [OF cc] by simp
      define s2 where "s2 = s1\<lparr>views := Some (vs @ [Wrapped (next_wrapped s1) v]), next_wrapped := Suc (next_wrapped s1)\<rparr>"
      have eq: "create_loop e c cx nm (Suc i) s2 = (s', Inr u)"
        using True "1.prems" cc RetValue by (simp add: create_loop.simps [of e c cx nm i s] s2_def)
      have v2: "views s2 = Some (vs @ [Wrapped (next_wrapped s1) v])" by (simp add: s2_def)
      obtain rs hs where ih: "length rs = length nm - Suc i"
        "trace s' = trace s2 @ map (\<lambda>(j, r). CreateCall c cx (nm ! j) j r) (zip [Suc i..<length nm] rs)"
        "views s' = Some ((vs @ [Wrapped (next_wrapped s1) v]) @ hs)" "list_all2 is_resolve rs hs"
        using "1.IH"(1) [OF True "1.prems"(2) cc [symmetric] RetValue eq [unfolded s2_def] v2 [unfolded s2_def]]
        unfolding s2_def by blast
      have t2: "trace s2 = trace s @ [CreateCall c cx (nm ! i) i r]" by (simp add: s2_def s1)
      have "length (r # rs) = length nm - i" using ih(1) True by simp
      moreover have "trace s' = trace s @ map (\<lambda>(j, r). CreateCall c cx (nm ! j) j r) (zip [i..<length nm] (r # rs))"
        using ih(2) t2 upt by simp
      moreover have "views s' = Some (vs @ (Wrapped (next_wrapped s1) v # hs))" using ih(3) by simp
      moreover have "list_all2 is_resolve (r # rs) (Wrapped (next_wrapped s1) v # hs)" using ih(4) RetValue by simp
      ultimately show ?thesis by blast
    next
      case (RetPromise k)
      then have s1: "s1 = s\<lparr>trace := trace s @ [CreateCall c cx (nm ! i) i r]\<rparr>"
        using call_create_returns [OF cc] by simp
      define s2 where "s2 = s1\<lparr>views := Some (vs @ [Ext k])\<rparr>"
      have eq: "create_loop e c cx nm (Suc i) s2 = (s', Inr u)"
        using True "1.prems" cc RetPromise by (simp add: create_loop.simps [of e c cx nm i s] s2_def)
      have v2: "views s2 = Some (vs @ [Ext k])" by (simp add: s2_def)
      obtain rs hs where ih: "length rs = length nm - Suc i"
        "trace s' = trace s2 @ map (\<lambda>(j, r). CreateCall c cx (nm ! j) j r) (zip [Suc i..<length nm] rs)"
        "views s' = Some ((vs @ [Ext k]) @ hs)" "list_all2 is_resolve rs hs"
        using "1.IH"(2) [OF True "1.prems"(2) cc [symmetric] RetPromise eq [unfolded s2_def] v2 [unfolded s2_def]]
        unfolding s2_def by blast
      have t2: "trace s2 = trace s @ [CreateCall c cx (nm ! i) i r]" by (simp add: s2_def s1)
      have "length (r # rs) = length nm - i" using ih(1) True by simp
      moreover have "trace s' = trace s @ map (\<lambda>(j, r). CreateCall c cx (nm ! j) j r) (zip [i..<length nm] (r # rs))"
        using ih(2) t2 upt by simp
      moreover have "views s' = Some (vs @ (Ext k # hs))" using ih(3) by simp
      moreover have "list_all2 is_resolve (r # rs) (Ext k # hs)" using ih(4) RetPromise by simp
      ultimately show ?thesis by blast
    qed
  qed
qed


subsection \<open>The common prefix is kept\<close>

lemma update_splice_eq:
  assumes "models s = Some ms" and "views s = Some vs"
  shows "update_splice nm rm cx s =
     Inr (scan nm ms 0, drop (scan nm ms 0) vs,
          remove_loop (drop (scan nm ms 0) vs) rm cx (s\<lparr>views := Some (take (scan nm ms 0) vs)\<rparr>))"
  using assms by (simp add: update_splice_def first_removed_def array_splice_tail)

lemma views_remove_loop: "views (remove_loop hs rm cx s) = views s"
  and models_remove_loop: "models (remove_loop hs rm cx s) = models s"
  and ext_status_remove_loop: "ext_status (remove_loop hs rm cx s) = ext_status s"
  and trace_remove_loop: "trace (remove_loop hs rm cx s) = trace s"
  using remove_loop_frame [of hs rm cx s] by auto


lemma views_promise_all: "views (fst (promise_all hso s)) = views s"
  and models_promise_all: "models (fst (promise_all hso s)) = models s"
  and ext_status_promise_all: "ext_status (fst (promise_all hso s)) = ext_status s"
  and trace_promise_all: "trace (fst (promise_all hso s)) = trace s"
  using promise_all_frame [of hso s] by auto




lemma s_abc_models: "models s_abc = Some [Model 10, Model 20, Model 30]"
  unfolding s_abc_def by code_simp

lemma s_abc_views: "views s_abc = Some [Wrapped 0 110, Wrapped 1 120, Wrapped 2 130]"
  unfolding s_abc_def by code_simp



subsection \<open>Updating twice with the same models\<close>

lemma update_splice_Inr:
  assumes "update_splice nm rm cx s = Inr (i, removed, s1)"
  shows "\<exists>vs. views s = Some vs \<and> i \<le> length nm \<and> removed = drop i vs
     \<and> s1 = remove_loop (drop i vs) rm cx (s\<lparr>views := Some (take i vs)\<rparr>)"
proof (cases "views s")
  case None
  then show ?thesis using assms by (auto simp: update_splice_def split: sum.splits)
next
  case (Some vs)
  show ?thesis
  proof (cases "models s")
    case None
    then show ?thesis using assms Some array_splice_tail [of vs 0]
      by (auto simp: update_splice_def first_removed_def split: if_splits)
  next
    case (Some ms)
    have "scan nm ms 0 \<le> length nm" using scan_bounds [of 0 nm ms] by simp
    then show ?thesis using assms Some \<open>views s = Some vs\<close>
      by (auto simp: update_splice_def first_removed_def array_splice_tail)
  qed
qed










subsection \<open>dispose\<close>

text \<open>
  C8. \<open>dispose()\<close> sets \<open>views\<close> and \<open>models\<close> to \<open>null\<close> and does nothing
  else, however many views the list holds: it calls no hook, queues no job, and changes
  no other field and no promise.
\<close>

theorem dispose_drops_references:
  "views (dispose s) = None \<and> models (dispose s) = None
   \<and> trace (dispose s) = trace s \<and> jobs (dispose s) = jobs s
   \<and> handler_context (dispose s) = handler_context s
   \<and> create_view (dispose s) = create_view s \<and> remove_view (dispose s) = remove_view s
   \<and> ext_status (dispose s) = ext_status s \<and> ext_reactions (dispose s) = ext_reactions s
   \<and> alls (dispose s) = alls s \<and> rets (dispose s) = rets s
   \<and> next_wrapped (dispose s) = next_wrapped s"
  by (simp add: dispose_def)

subsection \<open>Defaults and overrides\<close>

lemma update_with_defaults:
  "handler_context (fst (update_with e nm c rm cx s)) = handler_context s
   \<and> create_view (fst (update_with e nm c rm cx s)) = create_view s
   \<and> remove_view (fst (update_with e nm c rm cx s)) = remove_view s"
proof (cases "update_splice nm rm cx s")
  case (Inl x)
  then show ?thesis by (simp add: update_with_def)
next
  case (Inr t)
  obtain i removed s1 where t: "t = (i, removed, s1)" by (cases t)
  obtain vs where "s1 = remove_loop (drop i vs) rm cx (s\<lparr>views := Some (take i vs)\<rparr>)"
    using update_splice_Inr [OF Inr [unfolded t]] by blast
  then obtain J R where s1: "s1 = s\<lparr>views := Some (take i vs), ext_reactions := R, jobs := J\<rparr>"
    using remove_loop_frame [of "drop i vs" rm cx "s\<lparr>views := Some (take i vs)\<rparr>"] by auto
  obtain s2 r where cl: "create_loop e c cx nm i s1 = (s2, r)" by (cases "create_loop e c cx nm i s1")
  obtain V N T where s2: "s2 = s1\<lparr>views := V, next_wrapped := N, trace := T\<rparr>"
    using create_loop_frame [of e c cx nm i s1] cl by auto
  show ?thesis
  proof (cases r)
    case (Inl x)
    then show ?thesis using Inr t cl s1 s2 by (simp add: update_with_def)
  next
    case (Inr u)
    obtain A J' R' where "promise_all (views (s2\<lparr>models := Some nm\<rparr>)) (s2\<lparr>models := Some nm\<rparr>)
       = (s2\<lparr>models := Some nm\<rparr>\<lparr>ext_reactions := R', alls := A, jobs := J'\<rparr>, length (alls (s2\<lparr>models := Some nm\<rparr>)))"
      using promise_all_frame [of "views (s2\<lparr>models := Some nm\<rparr>)" "s2\<lparr>models := Some nm\<rparr>"] by blast
    then show ?thesis using \<open>update_splice nm rm cx s = Inr t\<close> t cl Inr s1 s2
      by (simp add: update_with_def Let_def)
  qed
qed

text \<open>
  C9. Any falsy value makes the class fall back, not only an omitted argument. A falsy
  context at construction makes the list itself the receiver; a falsy removal hook at
  construction makes the default hook the stored one, and the default hook calls
  \<open>remove()\<close> on the view. A falsy creation hook, removal hook or context passed to
  \<open>update\<close> is replaced by the stored one. \<open>update\<close> never changes what is stored.
\<close>

theorem falsy_arguments_fall_back:
  "(\<not> truthy cx0 \<longrightarrow> handler_context (new_ViewList cv0 rv0 cx0 :: ('m, 'v) state) = This)
   \<and> (\<not> truthy rv0 \<longrightarrow> remove_view (new_ViewList cv0 rv0 cx0 :: ('m, 'v) state) = DefaultRemove)
   \<and> trace (fst (call_remove e DefaultRemove c v s)) = trace s @ [RemoveCall DefaultRemove c v, ViewRemove v]
   \<and> (\<not> truthy cv \<and> \<not> truthy rv \<and> \<not> truthy cx \<longrightarrow>
        update e nm cv rv cx s = update_with e nm (create_view s) (remove_view s) (handler_context s) s)
   \<and> (\<not> truthy cv \<longrightarrow> update e nm cv rv cx s = update e nm (create_view s) rv cx s)
   \<and> (\<not> truthy cx \<longrightarrow> update e nm cv rv cx s = update e nm cv rv (handler_context s) s)
   \<and> (\<not> truthy rv \<longrightarrow> update e nm cv rv cx s =
        update_with e nm (if truthy cv then cv else create_view s) (remove_view s)
          (if truthy cx then cx else handler_context s) s)
   \<and> handler_context (fst (update e nm cv rv cx s)) = handler_context s
   \<and> create_view (fst (update e nm cv rv cx s)) = create_view s
   \<and> remove_view (fst (update e nm cv rv cx s)) = remove_view s"
proof -
  have "trace (fst (call_remove e DefaultRemove c v s)) = trace s @ [RemoveCall DefaultRemove c v, ViewRemove v]"
    by (simp add: call_remove_def Let_def)
  moreover have "handler_context (fst (update e nm cv rv cx s)) = handler_context s
   \<and> create_view (fst (update e nm cv rv cx s)) = create_view s
   \<and> remove_view (fst (update e nm cv rv cx s)) = remove_view s"
    unfolding update_def by (rule update_with_defaults)
  ultimately show ?thesis
    by (simp add: new_ViewList_def initialize_def update_def)
qed

lemma s_abc_defaults: "create_view s_abc = Fun 0" "remove_view s_abc = DefaultRemove" "handler_context s_abc = This"
  unfolding s_abc_def by code_simp+

theorem falsy_arguments_fall_back_witness:
  "\<not> truthy (Num 0) \<and> handler_context (new_ViewList (Fun 0) Null (Num 0) :: (nat, nat) state) = This
   \<and> \<not> truthy Null \<and> remove_view (new_ViewList (Fun 0) Null (Num 0) :: (nat, nat) state) = DefaultRemove
   \<and> \<not> truthy (Str []) \<and> \<not> truthy NaN \<and> \<not> truthy (Bool False)
   \<and> update example_env [Model 10, Model 20, Model 40] (Str []) NaN (Bool False) s_abc =
       update_with example_env [Model 10, Model 20, Model 40] (Fun 0) DefaultRemove This s_abc"
proof -
  note t = falsy_arguments_fall_back [where ?'m = nat and ?'v = nat and ?cx0.0 = "Num 0" and ?rv0.0 = Null and ?cv0.0 = "Fun 0" and cv = "Str []" and rv = NaN
      and cx = "Bool False" and e = example_env and nm = "[Model 10, Model 20, Model 40]" and s = s_abc]
  have a: "handler_context (new_ViewList (Fun 0) Null (Num 0) :: (nat, nat) state) = This"
    using t [THEN conjunct1] by simp
  have b: "remove_view (new_ViewList (Fun 0) Null (Num 0) :: (nat, nat) state) = DefaultRemove"
    using t [THEN conjunct2, THEN conjunct1] by simp
  have c: "update example_env [Model 10, Model 20, Model 40] (Str []) NaN (Bool False) s_abc =
       update_with example_env [Model 10, Model 20, Model 40] (create_view s_abc) (remove_view s_abc) (handler_context s_abc) s_abc"
    using t [THEN conjunct2, THEN conjunct2, THEN conjunct2, THEN conjunct1] by simp
  show ?thesis using a b c by (simp add: s_abc_defaults)
qed

subsection \<open>The creation calls of update\<close>

lemma update_creates:
  assumes "models s = Some ms" and "views s = Some vs" and "update e nm cv rv cx s = (s', Inr a)"
  shows "\<exists>rs hs. length rs = length nm - scan nm ms 0
     \<and> trace s' = trace s @
          map (\<lambda>(i, r). CreateCall (if truthy cv then cv else create_view s)
                 (if truthy cx then cx else handler_context s) (nm ! i) i r)
            (zip [scan nm ms 0..<length nm] rs)
     \<and> views s' = Some (take (scan nm ms 0) vs @ hs)
     \<and> list_all2 is_resolve rs hs
     \<and> models s' = Some nm"
proof -
  define p where "p = scan nm ms 0"
  define create where "create = (if truthy cv then cv else create_view s)"
  define remove where "remove = (if truthy rv then Given rv else remove_view s)"
  define ctx where "ctx = (if truthy cx then cx else handler_context s)"
  have upd: "update_with e nm create remove ctx s = (s', Inr a)"
    using assms(3) by (simp add: update_def create_def remove_def ctx_def)
  define s1 where "s1 = remove_loop (drop p vs) remove ctx (s\<lparr>views := Some (take p vs)\<rparr>)"
  have sp: "update_splice nm remove ctx s = Inr (p, drop p vs, s1)"
    using update_splice_eq [OF assms(1,2)] by (simp add: p_def s1_def)
  have v1: "views s1 = Some (take p vs)" and t1: "trace s1 = trace s"
    by (simp_all add: s1_def views_remove_loop trace_remove_loop)
  obtain s2 u where cl: "create_loop e create ctx nm p s1 = (s2, Inr u)"
    using upd sp by (auto simp: update_with_def split: sum.splits prod.splits)
  obtain rs hs where r: "length rs = length nm - p"
    "trace s2 = trace s1 @ map (\<lambda>(j, r). CreateCall create ctx (nm ! j) j r) (zip [p..<length nm] rs)"
    "views s2 = Some (take p vs @ hs)" "list_all2 is_resolve rs hs"
    using create_loop_ok [OF cl v1] by blast
  define s3 where "s3 = s2\<lparr>models := Some nm\<rparr>"
  have s': "s' = fst (promise_all (views s3) s3)"
    using upd sp cl by (auto simp: update_with_def Let_def s3_def split: prod.splits)
  have "models s' = Some nm" by (simp add: s' models_promise_all s3_def)
  moreover have "views s' = Some (take p vs @ hs)" by (simp add: s' views_promise_all s3_def r(3))
  moreover have "trace s' = trace s @ map (\<lambda>(j, r). CreateCall create ctx (nm ! j) j r) (zip [p..<length nm] rs)"
    by (simp add: s' trace_promise_all s3_def r(2) t1)
  ultimately show ?thesis
    using r(1,4) unfolding p_def create_def ctx_def by blast
qed

text \<open>
  C6, as amended. An \<open>update(new_models)\<close> that returns its promise (no call of the
  creation hook has thrown) has called the creation hook, before it returned, once for
  each index from the divergence point \<open>p\<close> to the end of \<open>new_models\<close>, in
  ascending order, with the model at that index and the index; \<open>views\<close> is then the
  kept prefix followed by \<open>Promise.resolve\<close> of each result, in that order (a plain
  view becomes a new promise), and \<open>models\<close> is \<open>new_models\<close>.

  As stated for every call, the claim fails: a creation hook that throws ends the call
  at that index, with no call for the later indices and \<open>models\<close> not replaced.
\<close>

theorem update_creates_in_order:
  assumes "models s = Some ms" and "views s = Some vs" and "update e nm cv rv cx s = (s', Inr a)"
  shows "\<exists>rs hs. length rs = length nm - scan nm ms 0
     \<and> trace s' = trace s @
          map (\<lambda>(i, r). CreateCall (if truthy cv then cv else create_view s)
                 (if truthy cx then cx else handler_context s) (nm ! i) i r)
            (zip [scan nm ms 0..<length nm] rs)
     \<and> views s' = Some (take (scan nm ms 0) vs @ hs)
     \<and> list_all2 is_resolve rs hs
     \<and> models s' = Some nm"
  using assms by (rule update_creates)

lemma second_update: "update example_env [Model 10, Model 20, Model 40] Undefined Undefined Undefined s_abc = (s_abd, Inr 1)"
proof (rule prod_eqI)
  show "fst (update example_env [Model 10, Model 20, Model 40] Undefined Undefined Undefined s_abc) = fst (s_abd, Inr 1)"
    by (simp add: s_abd_def)
  show "snd (update example_env [Model 10, Model 20, Model 40] Undefined Undefined Undefined s_abc) = snd (s_abd, Inr 1)"
    unfolding s_abc_def by code_simp
qed

theorem update_creates_in_order_witness:
  "models s_abc = Some [Model 10, Model 20, Model 30] \<and> views s_abc = Some [Wrapped 0 110, Wrapped 1 120, Wrapped 2 130]
   \<and> update example_env [Model 10, Model 20, Model 40] Undefined Undefined Undefined s_abc = (s_abd, Inr 1)
   \<and> models s_abd = Some [Model 10, Model 20, Model 40]"
proof -
  have "models s_abd = Some [Model 10, Model 20, Model 40]"
    using update_creates_in_order [OF s_abc_models s_abc_views second_update] by blast
  then show ?thesis by (simp add: s_abc_models s_abc_views second_update)
qed

theorem update_creates_in_order_counterexample:
  "snd (update example_env [Model 10, Model 20] (Fun 2) Undefined Undefined (new_ViewList (Fun 0) Null Null)) = Inl (Thrown ''boom'')
   \<and> trace (fst (update example_env [Model 10, Model 20] (Fun 2) Undefined Undefined (new_ViewList (Fun 0) Null Null)))
        = [CreateCall (Fun 2) This (Model 10) 0 (Throws (Thrown ''boom''))]
   \<and> models (fst (update example_env [Model 10, Model 20] (Fun 2) Undefined Undefined (new_ViewList (Fun 0) Null Null))) = Some []
   \<and> views (fst (update example_env [Model 10, Model 20] (Fun 2) Undefined Undefined (new_ViewList (Fun 0) Null Null))) = Some []"
  by code_simp

subsection \<open>Callbacks and jobs\<close>

lemma handle_outcome_frame [simp]:
  "handle_outcome (s\<lparr>jobs := J\<rparr>) h = handle_outcome s h"
  "handle_outcome (s\<lparr>ext_reactions := R\<rparr>) h = handle_outcome s h"
  "handle_outcome (s\<lparr>alls := A\<rparr>) h = handle_outcome s h"
  "handle_outcome (s\<lparr>views := V\<rparr>) h = handle_outcome s h"
  "handle_outcome (s\<lparr>models := M\<rparr>) h = handle_outcome s h"
  "handle_outcome (s\<lparr>trace := T\<rparr>) h = handle_outcome s h"
  "handle_outcome (s\<lparr>rets := Q\<rparr>) h = handle_outcome s h"
  "handle_outcome (s\<lparr>next_wrapped := N\<rparr>) h = handle_outcome s h"
  by (simp_all add: handle_outcome_def split: handle.splits)

lemma then_handle_closed:
  "then_handle h r s =
     s\<lparr>ext_reactions := (\<lambda>k. ext_reactions s k @ waiting_for s k [(h, r)]),
       jobs := jobs s @ queued_for s [(h, r)]\<rparr>"
proof (cases h)
  case (Wrapped n v)
  have "(\<lambda>k. ext_reactions s k @ waiting_for s k [(h, r)]) = ext_reactions s"
    using Wrapped by (auto simp: waiting_for_def intro!: ext)
  then show ?thesis using Wrapped
    by (simp add: then_handle_def queued_for_def handle_outcome_def)
next
  case (Ext k)
  show ?thesis
  proof (cases "ext_status s k")
    case None
    have "(\<lambda>k'. ext_reactions s k' @ waiting_for s k' [(h, r)]) = (ext_reactions s)(k := ext_reactions s k @ [r])"
      using Ext None by (auto simp: waiting_for_def intro!: ext)
    then show ?thesis using Ext None
      by (simp add: then_handle_def queued_for_def handle_outcome_def)
  next
    case (Some out)
    have "(\<lambda>k'. ext_reactions s k' @ waiting_for s k' [(h, r)]) = ext_reactions s"
      using Ext Some by (auto simp: waiting_for_def intro!: ext)
    then show ?thesis using Ext Some
      by (simp add: then_handle_def queued_for_def handle_outcome_def)
  qed
qed

lemma queued_for_frame [simp]:
  "queued_for (s\<lparr>ext_reactions := R, jobs := J\<rparr>) prs = queued_for s prs"
  "queued_for (s\<lparr>alls := A\<rparr>) prs = queued_for s prs"
  "queued_for (s\<lparr>views := V\<rparr>) prs = queued_for s prs"
  by (simp_all add: queued_for_def)

lemma waiting_for_frame [simp]:
  "waiting_for (s\<lparr>ext_reactions := R, jobs := J\<rparr>) k prs = waiting_for s k prs"
  "waiting_for (s\<lparr>alls := A\<rparr>) k prs = waiting_for s k prs"
  "waiting_for (s\<lparr>views := V\<rparr>) k prs = waiting_for s k prs"
  by (simp_all add: waiting_for_def)

lemma queued_for_Nil [simp]: "queued_for s [] = []"
  by (simp add: queued_for_def)

lemma waiting_for_Nil [simp]: "waiting_for s k [] = []"
  by (simp add: waiting_for_def)

lemma queued_for_Cons: "queued_for s (x # prs) = queued_for s [x] @ queued_for s prs"
  by (simp add: queued_for_def)

lemma waiting_for_Cons: "waiting_for s k (x # prs) = waiting_for s k [x] @ waiting_for s k prs"
  by (simp add: waiting_for_def)

lemma register_closed:
  "register prs s =
     s\<lparr>ext_reactions := (\<lambda>k. ext_reactions s k @ waiting_for s k prs),
       jobs := jobs s @ queued_for s prs\<rparr>"
proof (induction prs arbitrary: s)
  case Nil
  show ?case by (simp add: register_def)
next
  case (Cons x prs)
  obtain h r where x: "x = (h, r)" by (cases x)
  define s1 where "s1 = then_handle h r s"
  have s1: "s1 = s\<lparr>ext_reactions := (\<lambda>k. ext_reactions s k @ waiting_for s k [(h, r)]),
       jobs := jobs s @ queued_for s [(h, r)]\<rparr>"
    unfolding s1_def by (rule then_handle_closed)
  have "register (x # prs) s = register prs s1"
    by (simp add: register_def x s1_def)
  also have "\<dots> = s1\<lparr>ext_reactions := (\<lambda>k. ext_reactions s1 k @ waiting_for s1 k prs),
       jobs := jobs s1 @ queued_for s1 prs\<rparr>"
    by (rule Cons.IH)
  also have "\<dots> = s\<lparr>ext_reactions := (\<lambda>k. ext_reactions s k @ waiting_for s k (x # prs)),
       jobs := jobs s @ queued_for s (x # prs)\<rparr>"
    unfolding s1 by (simp add: x queued_for_Cons [of s "(h, r)" prs] waiting_for_Cons [of s _ "(h, r)" prs])
  finally show ?case .
qed


lemma register_elements_register:
  "register_elements a hs i s = register (zip hs (map (AllElement a) [i..<i + length hs])) s"
proof (induction hs arbitrary: s i)
  case Nil
  then show ?case by (simp add: register_def)
next
  case (Cons h hs)
  have "[i..<i + Suc (length hs)] = i # [Suc i..<i + Suc (length hs)]"
    by (rule upt_conv_Cons) simp
  then show ?case using Cons.IH [of "Suc i"] by (simp add: register_def)
qed

lemma run_jobs_Nil: "jobs s = [] \<Longrightarrow> run_jobs e s = s"
  by (subst run_jobs.simps) simp

lemma run_jobs_Cons: "jobs s = j # js \<Longrightarrow> run_jobs e s = run_jobs e (run_job e j (s\<lparr>jobs := js\<rparr>))"
  by (subst run_jobs.simps) simp

lemma run_jobs_invariant:
  "P s \<Longrightarrow> (\<And>t j js. P t \<Longrightarrow> jobs t = j # js \<Longrightarrow> P (run_job e j (t\<lparr>jobs := js\<rparr>)))
   \<Longrightarrow> P (run_jobs e s)"
proof (induction e s rule: run_jobs.induct)
  case (1 e s)
  show ?case
  proof (cases "jobs s")
    case Nil
    show ?thesis using "1.prems"(1) by (simp only: run_jobs_Nil [OF Nil])
  next
    case (Cons j js)
    have step: "P (run_job e j (s\<lparr>jobs := js\<rparr>))" by (rule "1.prems"(2) [OF "1.prems"(1) Cons])
    have "P (run_jobs e (run_job e j (s\<lparr>jobs := js\<rparr>)))"
      by (rule "1.IH" [OF Cons step "1.prems"(2)])
    then show ?thesis by (simp only: run_jobs_Cons [OF Cons])
  qed
qed


lemma call_remove_closed:
  "fst (call_remove e rm cx v s) = s\<lparr>trace := trace s @ removal_calls rm cx v\<rparr>"
proof (cases rm)
  case DefaultRemove
  then show ?thesis by (simp add: call_remove_def Let_def)
next
  case (Given f)
  then show ?thesis by (cases f) (simp_all add: call_remove_def)
qed

lemma run_job_remove:
  "run_job e (HandleJob (RemoveReaction rm cx) out) s =
     s\<lparr>trace := trace s @ reaction_calls out (RemoveReaction rm cx)\<rparr>"
  by (cases out) (simp_all add: run_job_def call_remove_closed)










lemma promise_all_closed:
  "promise_all (Some hs) s =
     (s\<lparr>ext_reactions := (\<lambda>k. ext_reactions s k @ waiting_for s k (elements (length (alls s)) hs)),
        alls := alls s @ [new_all hs],
        jobs := jobs s @ queued_for s (elements (length (alls s)) hs)\<rparr>, length (alls s))"
proof -
  define s0 where "s0 = s\<lparr>alls := alls s @ [new_all hs]\<rparr>"
  have "promise_all (Some hs) s = (register (elements (length (alls s)) hs) s0, length (alls s))"
    by (simp add: promise_all_def Let_def register_elements_register elements_def s0_def new_all_def)
  then show ?thesis
    by (simp add: register_closed s0_def)
qed


subsection \<open>Promise.all\<close>


lemma settle_all_promise_closed:
  "settle_all_promise a out s =
     (if a < length (alls s) \<and> all_status (alls s ! a) = None
      then s\<lparr>alls := (alls s)[a := (alls s ! a)\<lparr>all_status := Some out, all_reactions := []\<rparr>],
             jobs := jobs s @ map (\<lambda>r. AllThenJob r out) (all_reactions (alls s ! a))\<rparr>
      else s)"
  by (auto simp: settle_all_promise_def split: option.splits)







lemma run_job_element_fulfilled:
  "run_job e (HandleJob (AllElement a i) (Fulfilled v)) s =
     (if a < length (alls s) then
        (if list_all (\<lambda>x. x \<noteq> None) ((all_vals (alls s ! a))[i := Some v])
         then settle_all_promise a (Fulfilled (map the ((all_vals (alls s ! a))[i := Some v])))
                (s\<lparr>alls := (alls s)[a := (alls s ! a)\<lparr>all_vals := (all_vals (alls s ! a))[i := Some v]\<rparr>]\<rparr>)
         else s\<lparr>alls := (alls s)[a := (alls s ! a)\<lparr>all_vals := (all_vals (alls s ! a))[i := Some v]\<rparr>]\<rparr>)
      else s)"
  by (simp add: run_job_def Let_def)

lemma run_job_element_rejected:
  "run_job e (HandleJob (AllElement a i) (Rejected x)) s = settle_all_promise a (Rejected x) s"
  by (simp add: run_job_def)

lemma settle_all_promise_frame:
  "\<exists>A J. settle_all_promise a' out s = s\<lparr>alls := A, jobs := jobs s @ J\<rparr> \<and> length A = length (alls s)
     \<and> (\<forall>b. b \<noteq> a' \<longrightarrow> A ! b = alls s ! b) \<and> (\<forall>rc y. HandleJob rc y \<notin> set J)"
proof (cases "a' < length (alls s) \<and> all_status (alls s ! a') = None")
  case True
  define A where "A = (alls s)[a' := (alls s ! a')\<lparr>all_status := Some out, all_reactions := []\<rparr>]"
  define J where "J = map (\<lambda>r. AllThenJob r out) (all_reactions (alls s ! a'))"
  have "settle_all_promise a' out s = s\<lparr>alls := A, jobs := jobs s @ J\<rparr>"
    using True by (simp add: settle_all_promise_closed A_def J_def)
  moreover have "length A = length (alls s)" by (simp add: A_def)
  moreover have "\<forall>b. b \<noteq> a' \<longrightarrow> A ! b = alls s ! b" by (simp add: A_def)
  moreover have "\<forall>rc y. HandleJob rc y \<notin> set J" by (auto simp: J_def)
  ultimately show ?thesis by blast
next
  case False
  have "settle_all_promise a' out s = s\<lparr>alls := alls s, jobs := jobs s @ []\<rparr>"
    using False by (auto simp: settle_all_promise_def split: option.splits)
  then show ?thesis
    by (intro exI [of _ "alls s"] exI [of _ "[]"]) simp
qed

lemma run_job_element_frame:
  "\<exists>A J. run_job e (HandleJob (AllElement a' i) out) s = s\<lparr>alls := A, jobs := jobs s @ J\<rparr> \<and> length A = length (alls s)
     \<and> (\<forall>b. b \<noteq> a' \<longrightarrow> A ! b = alls s ! b) \<and> (\<forall>rc y. HandleJob rc y \<notin> set J)"
proof (cases out)
  case (Rejected x)
  then show ?thesis using settle_all_promise_frame [of a' "Rejected x" s]
    by (simp add: run_job_element_rejected)
next
  case (Fulfilled v)
  define vals where "vals = (all_vals (alls s ! a'))[i := Some v]"
  define A1 where "A1 = (alls s)[a' := (alls s ! a')\<lparr>all_vals := vals\<rparr>]"
  define s1 where "s1 = s\<lparr>alls := A1\<rparr>"
  have l1: "length A1 = length (alls s)" and o1: "\<forall>b. b \<noteq> a' \<longrightarrow> A1 ! b = alls s ! b"
    by (simp_all add: A1_def)
  show ?thesis
  proof (cases "a' < length (alls s)")
    case False
    then have "run_job e (HandleJob (AllElement a' i) out) s = s\<lparr>alls := alls s, jobs := jobs s @ []\<rparr>"
      using Fulfilled by (simp add: run_job_element_fulfilled)
    then show ?thesis
      by (intro exI [of _ "alls s"] exI [of _ "[]"]) simp
  next
    case True
    show ?thesis
    proof (cases "list_all (\<lambda>x. x \<noteq> None) vals")
      case False
      then have "run_job e (HandleJob (AllElement a' i) out) s = s\<lparr>alls := A1, jobs := jobs s @ []\<rparr>"
        using Fulfilled True by (simp add: run_job_element_fulfilled vals_def A1_def)
      then show ?thesis using l1 o1
        by (intro exI [of _ A1] exI [of _ "[]"]) simp
    next
      case all: True
      have "run_job e (HandleJob (AllElement a' i) out) s = settle_all_promise a' (Fulfilled (map the vals)) s1"
        using Fulfilled True all by (simp add: run_job_element_fulfilled vals_def A1_def s1_def)
      moreover obtain A J where "settle_all_promise a' (Fulfilled (map the vals)) s1 = s1\<lparr>alls := A, jobs := jobs s1 @ J\<rparr>"
        "length A = length (alls s1)" "\<forall>b. b \<noteq> a' \<longrightarrow> A ! b = alls s1 ! b" "\<forall>rc y. HandleJob rc y \<notin> set J"
        using settle_all_promise_frame [of a' "Fulfilled (map the vals)" s1] by blast
      ultimately have "run_job e (HandleJob (AllElement a' i) out) s = s\<lparr>alls := A, jobs := jobs s @ J\<rparr>"
        "length A = length (alls s)" "\<forall>b. b \<noteq> a' \<longrightarrow> A ! b = alls s ! b" "\<forall>rc y. HandleJob rc y \<notin> set J"
        using l1 o1 by (simp_all add: s1_def)
      then show ?thesis by blast
    qed
  qed
qed








lemma in_elements_other: "(h, RemoveReaction rm cx) \<notin> set (elements b hs)"
  by (auto simp: elements_def in_set_zip)


lemma AllThen_notin_queued_for: "AllThenJob r out \<notin> set (queued_for s prs)"
  by (auto simp: queued_for_def split: option.splits)

lemma in_waiting_for:
  "r \<in> set (waiting_for s k prs) \<longleftrightarrow> ext_status s k = None \<and> (Ext k, r) \<in> set prs"
  by (induction prs) (auto simp: waiting_for_def)







subsection \<open>The removal callbacks of update\<close>

lemma reaction_calls_element [simp]: "reaction_calls out (AllElement b i) = []"
  by (cases out) simp_all

lemma job_calls_elements [simp]:
  "concat (map job_calls (queued_for s (elements a hs))) = ([] :: ('m, 'v) call list)"
proof -
  have "\<And>prs. (\<forall>(h, r) \<in> set prs. \<not> is_remove_reaction r) \<Longrightarrow>
      concat (map job_calls (queued_for s prs)) = ([] :: ('m, 'v) call list)"
  proof -
    fix prs :: "('v handle \<times> reaction) list"
    show "(\<forall>(h, r) \<in> set prs. \<not> is_remove_reaction r) \<Longrightarrow>
      concat (map job_calls (queued_for s prs)) = ([] :: ('m, 'v) call list)"
    proof (induction prs)
      case Nil
      then show ?case by simp
    next
      case (Cons x prs)
      obtain h r where x: "x = (h, r)" by (cases x)
      obtain b i where r: "r = AllElement b i" using Cons.prems x by (cases r) auto
      have "concat (map job_calls (queued_for s [(h, r)])) = ([] :: ('m, 'v) call list)"
        by (cases "handle_outcome s h") (simp_all add: queued_for_def r)
      then show ?case using Cons by (simp add: queued_for_Cons [of s "(h, r)" prs] x)
    qed
  qed
  moreover have "\<forall>(h, r) \<in> set (elements a hs). \<not> is_remove_reaction r"
    by (auto simp: elements_def in_set_zip)
  ultimately show ?thesis by blast
qed





lemma no_calls_without_removals:
  "filter is_remove_reaction rs = [] \<Longrightarrow> concat (map (reaction_calls out) rs) = ([] :: ('m, 'v) call list)"
proof (induction rs)
  case Nil
  then show ?case by simp
next
  case (Cons r rs)
  then show ?case by (cases r) (simp_all split: if_splits)
qed

lemma calls_waiting_elements [simp]:
  "concat (map (reaction_calls out) (waiting_for s k (elements a hs))) = ([] :: ('m, 'v) call list)"
proof -
  have "filter is_remove_reaction (waiting_for s k (elements a hs)) = []"
    by (auto simp: filter_empty_conv in_waiting_for elements_def in_set_zip)
  then show ?thesis by (rule no_calls_without_removals)
qed



lemma no_removals_waiting_elements [simp]:
  "filter is_remove_reaction (waiting_for s k (elements a hs)) = []"
  by (auto simp: filter_empty_conv in_waiting_for elements_def in_set_zip)






















subsection \<open>remove\<close>








lemma then_all_closed:
  "then_all a r s =
     (case all_status (alls s ! a) of
        None \<Rightarrow> s\<lparr>alls := (alls s)[a := (alls s ! a)\<lparr>all_reactions := all_reactions (alls s ! a) @ [r]\<rparr>]\<rparr>
      | Some out \<Rightarrow> s\<lparr>jobs := jobs s @ [AllThenJob r out]\<rparr>)"
  by (simp add: then_all_def)

lemma remove_closed:
  assumes "views s = Some hs"
  shows "remove s =
     (s\<lparr>ext_reactions := (\<lambda>k. ext_reactions s k @ waiting_for s k (elements (length (alls s)) hs)),
        alls := alls s @ [(new_all hs)\<lparr>all_reactions := (if hs = [] then [] else [length (rets s)])\<rparr>],
        rets := rets s @ [None],
        jobs := jobs s @ queued_for s (elements (length (alls s)) hs)
                  @ (if hs = [] then [AllThenJob (length (rets s)) (Fulfilled [])] else [])\<rparr>,
      length (rets s))"
proof (cases "hs = []")
  case True
  then show ?thesis using assms
    by (simp add: remove_def promise_all_closed then_all_closed new_all_def Let_def)
next
  case False
  then show ?thesis using assms
    by (simp add: remove_def promise_all_closed then_all_closed new_all_def Let_def)
qed













lemma new_ViewList_lists:
  "models (new_ViewList cv rv cx) = Some []" "views (new_ViewList cv rv cx) = Some []"
  by (simp_all add: new_ViewList_def initialize_def)




subsection \<open>The two lists stay aligned\<close>

lemma aligned_iff:
  "aligned s = (\<exists>ms vs. models s = Some ms \<and> views s = Some vs \<and> length ms = length vs
      \<and> (\<forall>i < length ms. \<exists>cl \<in> set (trace s). created_as (ms ! i) i (vs ! i) cl))"
  by (auto simp: aligned_def list_all_iff list_ex_iff split: option.splits)

lemma aligned_empty: "models s = Some [] \<Longrightarrow> views s = Some [] \<Longrightarrow> aligned s"
  by (simp add: aligned_iff)

lemma aligned_extend:
  "aligned s \<Longrightarrow> models s' = models s \<Longrightarrow> views s' = views s \<Longrightarrow> trace s' = trace s @ T \<Longrightarrow> aligned s'"
  unfolding aligned_iff by fastforce

lemma remove_each_trace: "\<exists>T. fst (remove_each e vs s) = s\<lparr>trace := trace s @ T\<rparr>"
proof (induction vs arbitrary: s)
  case Nil
  have "fst (remove_each e [] s) = s\<lparr>trace := trace s @ []\<rparr>" by simp
  then show ?case by blast
next
  case (Cons v vs)
  obtain s1 r where cr: "call_remove e (remove_view s) (handler_context s) v s = (s1, r)"
    by (cases "call_remove e (remove_view s) (handler_context s) v s")
  have s1: "s1 = s\<lparr>trace := trace s @ removal_calls (remove_view s) (handler_context s) v\<rparr>"
    using call_remove_closed [of e "remove_view s" "handler_context s" v s] cr by simp
  show ?case
  proof (cases r)
    case (Some x)
    then show ?thesis using cr s1 by auto
  next
    case None
    obtain T where "fst (remove_each e vs s1) = s1\<lparr>trace := trace s1 @ T\<rparr>" using Cons.IH [of s1] by blast
    then have "fst (remove_each e (v # vs) s) =
        s\<lparr>trace := trace s @ (removal_calls (remove_view s) (handler_context s) v @ T)\<rparr>"
      using cr None by (simp add: s1)
    then show ?thesis by blast
  qed
qed

lemma aligned_run_job:
  assumes "aligned s"
  shows "aligned (run_job e j (s\<lparr>jobs := js\<rparr>))"
proof -
  define s0 where "s0 = s\<lparr>jobs := js\<rparr>"
  have a0: "aligned s0" using assms by (simp add: aligned_iff s0_def)
  have "aligned (run_job e j s0)"
  proof (cases j)
    case (HandleJob rc out)
    show ?thesis
    proof (cases rc)
      case (RemoveReaction rm cx)
      show ?thesis unfolding HandleJob RemoveReaction run_job_remove
        by (rule aligned_extend [OF a0]) simp_all
    next
      case (AllElement a i)
      obtain A J where "run_job e (HandleJob (AllElement a i) out) s0 = s0\<lparr>alls := A, jobs := jobs s0 @ J\<rparr>"
        using run_job_element_frame [of e a i out s0] by blast
      then show ?thesis unfolding HandleJob AllElement using a0 by (simp add: aligned_iff)
    qed
  next
    case (AllThenJob r out)
    show ?thesis
    proof (cases out)
      case (Rejected x)
      then show ?thesis using AllThenJob a0 by (simp add: run_job_def aligned_iff)
    next
      case (Fulfilled vs)
      obtain s1 x where re: "remove_each e vs s0 = (s1, x)" by (cases "remove_each e vs s0")
      obtain T where s1: "s1 = s0\<lparr>trace := trace s0 @ T\<rparr>" using remove_each_trace [of e vs s0] re by auto
      have a1: "aligned s1" by (rule aligned_extend [OF a0]) (simp_all add: s1)
      show ?thesis
      proof (cases x)
        case None
        then show ?thesis using AllThenJob Fulfilled re by (simp add: run_job_def aligned_iff)
      next
        case (Some y)
        then show ?thesis using AllThenJob Fulfilled re a1 by (simp add: run_job_def aligned_iff)
      qed
    qed
  qed
  then show ?thesis by (simp add: s0_def)
qed

lemma aligned_run_jobs: "aligned s \<Longrightarrow> aligned (run_jobs e s)"
  by (rule run_jobs_invariant [where P = aligned]) (simp_all add: aligned_run_job)

lemma aligned_settle: "aligned s \<Longrightarrow> aligned (settle k out s)"
  by (cases "ext_status s k") (simp_all add: settle_def aligned_iff)

lemma aligned_remove: "aligned s \<Longrightarrow> aligned (fst (remove s))"
proof -
  assume a: "aligned s"
  then obtain hs where "views s = Some hs" by (auto simp: aligned_iff)
  then show ?thesis using a by (simp add: remove_closed aligned_iff)
qed

lemma aligned_update:
  assumes "aligned s" and "update e nm cv rv cx s = (s1, Inr a)"
  shows "aligned s1"
proof -
  obtain ms vs where s: "models s = Some ms" "views s = Some vs" "length ms = length vs"
    "\<forall>i < length ms. \<exists>cl \<in> set (trace s). created_as (ms ! i) i (vs ! i) cl"
    using assms(1) unfolding aligned_iff by blast
  define p where "p = scan nm ms 0"
  define c where "c = (if truthy cv then cv else create_view s)"
  define ctx where "ctx = (if truthy cx then cx else handler_context s)"
  obtain rs hs where r: "length rs = length nm - p"
    "trace s1 = trace s @ map (\<lambda>(i, r). CreateCall c ctx (nm ! i) i r) (zip [p..<length nm] rs)"
    "views s1 = Some (take p vs @ hs)" "list_all2 is_resolve rs hs" "models s1 = Some nm"
    using update_creates [OF s(1,2) assms(2)] unfolding p_def c_def ctx_def by blast
  have p: "p \<le> length nm" "p \<le> length ms" using scan_bounds [of 0 nm ms] by (simp_all add: p_def)
  have len: "length hs = length nm - p" using r(1,4) by (simp add: list_all2_lengthD)
  have l: "length nm = length (take p vs @ hs)" using p s(3) len by simp
  have "\<exists>cl \<in> set (trace s1). created_as (nm ! i) i ((take p vs @ hs) ! i) cl" if i: "i < length nm" for i
  proof (cases "i < p")
    case True
    then have "nm ! i = ms ! i" and "i < length ms" using scan_agree [of 0 i nm ms] by (simp_all add: p_def)
    moreover have "(take p vs @ hs) ! i = vs ! i" using True p(2) s(3) by (simp add: nth_append)
    ultimately show ?thesis using s(4) r(2) by auto
  next
    case False
    define j where "j = i - p"
    have j: "j < length rs" "i = p + j" using False i r(1) by (simp_all add: j_def)
    have "(i, rs ! j) \<in> set (zip [p..<length nm] rs)"
      using j i by (auto simp: in_set_zip intro!: exI [of _ j])
    then have "CreateCall c ctx (nm ! i) i (rs ! j) \<in> set (trace s1)"
      unfolding r(2) by force
    moreover have "is_resolve (rs ! j) (hs ! j)" using r(4) j(1) by (rule list_all2_nthD)
    moreover have "(take p vs @ hs) ! i = hs ! j" using p(2) s(3) j(2) by (simp add: nth_append)
    ultimately show ?thesis by force
  qed
  then show ?thesis unfolding aligned_iff using r(3,5) l by auto
qed

lemma aligned_step:
  assumes "aligned s" and "step e ev s = (s1, None)"
  shows "aligned s1"
proof (cases ev)
  case (Update nm cv rv cx)
  then obtain a where "update e nm cv rv cx s = (s1, Inr a)"
    using assms(2) by (auto split: prod.splits sum.splits)
  then show ?thesis using assms(1) by (rule aligned_update [rotated])
next
  case Remove
  then show ?thesis using assms by (auto simp: aligned_remove)
next
  case (Settle k out)
  then show ?thesis using assms by (auto simp: aligned_settle)
next
  case RunJobs
  then show ?thesis using assms by (auto simp: aligned_run_jobs)
qed

lemma aligned_run:
  "aligned s \<Longrightarrow> list_all (\<lambda>x. x = None) (snd (run e evs s)) \<Longrightarrow> aligned (fst (run e evs s))"
proof (induction evs arbitrary: s)
  case Nil
  then show ?case by simp
next
  case (Cons ev evs)
  obtain s1 x where st: "step e ev s = (s1, x)" by (cases "step e ev s")
  obtain s2 xs where rn: "run e evs s1 = (s2, xs)" by (cases "run e evs s1")
  have x: "x = None" and xs: "list_all (\<lambda>x. x = None) (snd (run e evs s1))"
    using Cons.prems(2) st rn by simp_all
  have "aligned s1" using aligned_step [OF Cons.prems(1) st [unfolded x]] .
  then have "aligned (fst (run e evs s1))" using xs by (rule Cons.IH)
  then show ?case using st rn by simp
qed

lemma run_take:
  "snd (run e (take n evs) s) = take n (snd (run e evs s))"
proof (induction evs arbitrary: s n)
  case Nil
  then show ?case by simp
next
  case (Cons ev evs)
  show ?case
  proof (cases n)
    case 0
    then show ?thesis by simp
  next
    case (Suc k)
    obtain s1 x where st: "step e ev s = (s1, x)" by (cases "step e ev s")
    show ?thesis using Cons.IH [of k s1] st Suc by (auto split: prod.splits)
  qed
qed

lemma run_aligned:
  assumes "list_all (\<lambda>x. x = None) (snd (run e evs (new_ViewList cv rv cx)))"
  shows "\<forall>n \<le> length evs. aligned (fst (run e (take n evs) (new_ViewList cv rv cx)))"
proof (intro allI impI)
  fix n
  have "list_all (\<lambda>x. x = None) (snd (run e (take n evs) (new_ViewList cv rv cx)))"
    unfolding run_take using assms by (auto simp: list_all_iff dest: in_set_takeD)
  then show "aligned (fst (run e (take n evs) (new_ViewList cv rv cx)))"
    by (rule aligned_run [OF aligned_empty [OF new_ViewList_lists]])
qed

text \<open>
  C3, as amended. For every sequence of \<open>update\<close> and \<open>remove\<close> calls, with promises settling and
  promise jobs running in between, that starts from a freshly constructed list and in which no
  call throws (no creation hook invocation throws), after each call (after each event of the
  sequence) \<open>_models\<close> and \<open>views\<close> have the same length and \<open>views[i]\<close> is the handle created for
  \<open>_models[i]\<close> at index \<open>i\<close>.
\<close>

theorem models_and_views_aligned:
  assumes "list_all (\<lambda>x. x = None) (snd (run e evs (new_ViewList cv rv cx)))"
  shows "\<forall>n \<le> length evs. aligned (fst (run e (take n evs) (new_ViewList cv rv cx)))"
  using assms by (rule run_aligned)

lemma example_run:
  "list_all (\<lambda>x. x = None) (snd (run example_env
        [Update [Model 10, Model 20, Model 30] Undefined Undefined Undefined, Remove, Update [Model 10, Model 20, Model 50] (Fun 1) Undefined Undefined,
         RunJobs, Settle 8 (Fulfilled 21), Update [Model 10, Model 40] Undefined Undefined Undefined]
        (new_ViewList (Fun 0) Null Null)))"
  "models (fst (run example_env
        [Update [Model 10, Model 20, Model 30] Undefined Undefined Undefined, Remove, Update [Model 10, Model 20, Model 50] (Fun 1) Undefined Undefined,
         RunJobs, Settle 8 (Fulfilled 21), Update [Model 10, Model 40] Undefined Undefined Undefined]
        (new_ViewList (Fun 0) Null Null))) = Some [Model 10, Model 40]"
  "views (fst (run example_env
        [Update [Model 10, Model 20, Model 30] Undefined Undefined Undefined, Remove, Update [Model 10, Model 20, Model 50] (Fun 1) Undefined Undefined,
         RunJobs, Settle 8 (Fulfilled 21), Update [Model 10, Model 40] Undefined Undefined Undefined]
        (new_ViewList (Fun 0) Null Null))) = Some [Wrapped 3 110, Wrapped 4 140]"
  by code_simp+

theorem models_and_views_aligned_witness:
  "list_all (\<lambda>x. x = None) (snd (run example_env
        [Update [Model 10, Model 20, Model 30] Undefined Undefined Undefined, Remove, Update [Model 10, Model 20, Model 50] (Fun 1) Undefined Undefined,
         RunJobs, Settle 8 (Fulfilled 21), Update [Model 10, Model 40] Undefined Undefined Undefined]
        (new_ViewList (Fun 0) Null Null)))
   \<and> aligned (fst (run example_env
        [Update [Model 10, Model 20, Model 30] Undefined Undefined Undefined, Remove, Update [Model 10, Model 20, Model 50] (Fun 1) Undefined Undefined,
         RunJobs, Settle 8 (Fulfilled 21), Update [Model 10, Model 40] Undefined Undefined Undefined]
        (new_ViewList (Fun 0) Null Null)))
   \<and> models (fst (run example_env
        [Update [Model 10, Model 20, Model 30] Undefined Undefined Undefined, Remove, Update [Model 10, Model 20, Model 50] (Fun 1) Undefined Undefined,
         RunJobs, Settle 8 (Fulfilled 21), Update [Model 10, Model 40] Undefined Undefined Undefined]
        (new_ViewList (Fun 0) Null Null))) = Some [Model 10, Model 40]
   \<and> views (fst (run example_env
        [Update [Model 10, Model 20, Model 30] Undefined Undefined Undefined, Remove, Update [Model 10, Model 20, Model 50] (Fun 1) Undefined Undefined,
         RunJobs, Settle 8 (Fulfilled 21), Update [Model 10, Model 40] Undefined Undefined Undefined]
        (new_ViewList (Fun 0) Null Null))) = Some [Wrapped 3 110, Wrapped 4 140]"
proof -
  have a: "aligned (fst (run example_env
        (take 6 [Update [Model 10, Model 20, Model 30] Undefined Undefined Undefined, Remove, Update [Model 10, Model 20, Model 50] (Fun 1) Undefined Undefined,
         RunJobs, Settle 8 (Fulfilled 21), Update [Model 10, Model 40] Undefined Undefined Undefined])
        (new_ViewList (Fun 0) Null Null)))"
    by (rule models_and_views_aligned [OF example_run(1), rule_format]) simp
  have t: "take 6 [Update [Model 10, Model 20, Model 30] Undefined Undefined Undefined, Remove, Update [Model 10, Model 20, Model 50] (Fun 1) Undefined Undefined,
         RunJobs, Settle 8 (Fulfilled 21), Update [Model 10, Model 40] Undefined Undefined Undefined] = [Update [Model 10, Model 20, Model 30] Undefined Undefined Undefined, Remove, Update [Model 10, Model 20, Model 50] (Fun 1) Undefined Undefined,
         RunJobs, Settle 8 (Fulfilled 21), Update [Model 10, Model 40] Undefined Undefined Undefined]"
    by simp
  note a' = a [unfolded t]
  show ?thesis
    by (intro conjI; (rule example_run a'))
qed

theorem models_and_views_aligned_counterexample:
  "snd (run example_env
        [Update [Model 10, Model 20, Model 30] Undefined Undefined Undefined, Update [Model 10, Model 40] (Fun 2) Undefined Undefined,
         Update [Model 10, Model 20, Model 30] Undefined Undefined Undefined]
        (new_ViewList (Fun 0) Null Null)) = [None, Some (Thrown ''boom''), None]
   \<and> models (fst (run example_env
        [Update [Model 10, Model 20, Model 30] Undefined Undefined Undefined, Update [Model 10, Model 40] (Fun 2) Undefined Undefined,
         Update [Model 10, Model 20, Model 30] Undefined Undefined Undefined]
        (new_ViewList (Fun 0) Null Null))) = Some [Model 10, Model 20, Model 30]
   \<and> views (fst (run example_env
        [Update [Model 10, Model 20, Model 30] Undefined Undefined Undefined, Update [Model 10, Model 40] (Fun 2) Undefined Undefined,
         Update [Model 10, Model 20, Model 30] Undefined Undefined Undefined]
        (new_ViewList (Fun 0) Null Null))) = Some [Wrapped 0 110]"
  by code_simp

end
